theory Spec2Isabelle
  imports Main "HOL-Library.Sublist" "HOL-Library.Multiset"
begin

section \<open>Strings\<close>

text \<open>
  JavaScript strings are modelled as \<^typ>\<open>string\<close>; the model covers ASCII text. Version
  directory names, the word LATEST and every message of the program are ASCII.
\<close>

definition is_digit :: "char \<Rightarrow> bool" where
  \<comment> \<open>the regular expression class \<open>\d\<close>\<close>
  "is_digit c = (c \<in> set ''0123456789'')"

definition is_space :: "char \<Rightarrow> bool" where
  \<comment> \<open>the ASCII members of \<open>\s\<close>, which are also what \<open>trim\<close> removes:
      tab, line feed, vertical tab, form feed, carriage return, space\<close>
  "is_space c = (c \<in> set [CHR 0x09, CHR 0x0A, CHR 0x0B, CHR 0x0C, CHR 0x0D, CHR '' ''])"

definition toUpperCase_char :: "char \<Rightarrow> char" where
  "toUpperCase_char c =
     (case map_of (zip ''abcdefghijklmnopqrstuvwxyz'' ''ABCDEFGHIJKLMNOPQRSTUVWXYZ'') c of
        None \<Rightarrow> c
      | Some u \<Rightarrow> u)"

definition toUpperCase :: "string \<Rightarrow> string" where
  "toUpperCase s = map toUpperCase_char s"

definition remove_spaces :: "string \<Rightarrow> string" where
  \<comment> \<open>\<open>s.replace(/\s/g, '')\<close>\<close>
  "remove_spaces s = filter (\<lambda>c. \<not> is_space c) s"


fun split_on :: "char \<Rightarrow> string \<Rightarrow> string list" where
  \<comment> \<open>\<open>s.split(d)\<close> for a one-character separator: never empty, \<open>''.split('.')\<close> is \<open>['']\<close>\<close>
  "split_on d [] = [[]]"
| "split_on d (c # cs) =
     (if c = d then [] # split_on d cs
      else (case split_on d cs of p # ps \<Rightarrow> (c # p) # ps | [] \<Rightarrow> [[c]]))"

fun join_with :: "string \<Rightarrow> string list \<Rightarrow> string" where
  \<comment> \<open>\<open>parts.join(sep)\<close>\<close>
  "join_with sep [] = []"
| "join_with sep [p] = p"
| "join_with sep (p # q # ps) = p @ sep @ join_with sep (q # ps)"

fun str_includes :: "string \<Rightarrow> string \<Rightarrow> bool" where
  \<comment> \<open>\<open>s.includes(pat)\<close>\<close>
  "str_includes pat [] = (pat = [])"
| "str_includes pat (c # cs) = (prefix pat (c # cs) \<or> str_includes pat cs)"

fun replace_first :: "string \<Rightarrow> string \<Rightarrow> string \<Rightarrow> string" where
  \<comment> \<open>\<open>s.replace(pat, rep)\<close> with a string pattern: the first occurrence only\<close>
  "replace_first pat rep [] = (if pat = [] then rep else [])"
| "replace_first pat rep (c # cs) =
     (if prefix pat (c # cs) then rep @ drop (length pat) (c # cs)
      else c # replace_first pat rep cs)"

section \<open>Host: the version catalog (Updates-Server.js)\<close>

subsection \<open>The version grammar and the comparator of sortVersionsDescending\<close>

fun grammar_from :: "bool \<Rightarrow> string \<Rightarrow> bool" where
  \<comment> \<open>the automaton of \<open>/^\d+(\.\d+)*$/\<close>; the flag tells whether the current component
      already has a digit\<close>
  "grammar_from d [] = d"
| "grammar_from d (c # cs) =
     (if is_digit c then grammar_from True cs
      else if c = CHR ''.'' \<and> d then grammar_from False cs
      else False)"

definition version_grammar :: "string \<Rightarrow> bool" where
  "version_grammar s = grammar_from False s"

definition digit_value :: "char \<Rightarrow> nat" where
  "digit_value c = of_char c - 48"

definition decimal :: "string \<Rightarrow> nat" where
  \<comment> \<open>the number that a string of decimal digits denotes\<close>
  "decimal s = foldl (\<lambda>n c. 10 * n + digit_value c) 0 s"

fun bit_length :: "nat \<Rightarrow> nat" where
  "bit_length n = (if n = 0 then 0 else Suc (bit_length (n div 2)))"

definition to_double :: "nat \<Rightarrow> nat" where
  \<comment> \<open>the double nearest to a natural number, ties to the even significand: a number
      of at most 53 bits is kept, of a longer one the leading 53 bits are kept and
      rounded. Values from \<open>2^1024\<close> on would be \<open>Infinity\<close>; a file name of at most 255
      characters stays far below.\<close>
  "to_double n =
     (if bit_length n \<le> 53 then n
      else
        (let e = bit_length n - 53; q = n div 2 ^ e; r = n mod 2 ^ e
         in (if 2 * r > 2 ^ e \<or> (2 * r = 2 ^ e \<and> odd q) then q + 1 else q) * 2 ^ e))"

definition Number :: "string \<Rightarrow> nat" where
  \<comment> \<open>\<open>Number(part)\<close> on a string of decimal digits, the only strings the comparator sees
      (the filter runs first); \<open>Number('')\<close> is 0\<close>
  "Number s = to_double (decimal s)"

definition version_parts :: "string \<Rightarrow> nat list" where
  \<comment> \<open>\<open>a.split('.').map(Number)\<close>\<close>
  "version_parts a = map Number (split_on CHR ''.'' a)"

definition part_or_0 :: "nat list \<Rightarrow> nat \<Rightarrow> nat" where
  \<comment> \<open>\<open>parts[i] || 0\<close>: a missing component reads as 0\<close>
  "part_or_0 parts i = (if i < length parts then parts ! i else 0)"

function compare_loop :: "nat list \<Rightarrow> nat list \<Rightarrow> nat \<Rightarrow> int" where
  \<comment> \<open>the \<open>for\<close> loop of the comparator, from index \<open>i\<close>\<close>
  "compare_loop partsA partsB i =
     (if i < max (length partsA) (length partsB) then
        (let numA = part_or_0 partsA i; numB = part_or_0 partsB i
         in if numA \<noteq> numB then int numB - int numA
            else compare_loop partsA partsB (i + 1))
      else 0)"
  by pat_completeness auto
termination
  by (relation "measure (\<lambda>(partsA, partsB, i). max (length partsA) (length partsB) - i)") auto

definition compare_versions :: "string \<Rightarrow> string \<Rightarrow> int" where
  \<comment> \<open>the callback given to \<open>sort\<close>: negative when \<open>a\<close> goes first\<close>
  "compare_versions a b = compare_loop (version_parts a) (version_parts b) 0"

fun insert_sorted :: "('a \<Rightarrow> 'a \<Rightarrow> int) \<Rightarrow> 'a \<Rightarrow> 'a list \<Rightarrow> 'a list" where
  "insert_sorted cmp x [] = [x]"
| "insert_sorted cmp x (y # ys) =
     (if cmp x y \<le> 0 then x # y # ys else y # insert_sorted cmp x ys)"

definition array_sort :: "('a \<Rightarrow> 'a \<Rightarrow> int) \<Rightarrow> 'a list \<Rightarrow> 'a list" where
  \<comment> \<open>\<open>Array.prototype.sort(cmp)\<close>, a stable sort: elements that compare equal keep their
      order. With a consistent comparator every stable sort returns this list.\<close>
  "array_sort cmp xs = foldr (insert_sorted cmp) xs []"

declare compare_loop.simps [simp del]

declare bit_length.simps [simp del]

subsection \<open>The package root and get_versions\<close>

type_synonym path = "string list"

datatype node = File string | Dir "(path \<times> string) list"
  \<comment> \<open>an entry of the package root: a plain file, or a directory with the files below it
      (path relative to the directory, contents)\<close>

record host =
  working_dir :: string
  BASE_DIR :: string
  root :: "(string \<times> node) list option"
  \<comment> \<open>what \<open>readdirSync(BASE_DIR)\<close> lists; \<open>None\<close> when it throws
      (the directory is missing or cannot be read)\<close>

fun isDirectory :: "node \<Rightarrow> bool" where
  "isDirectory (Dir files) = True"
| "isDirectory (File text) = False"

datatype versions_result = Status_true "string list" | Status_false string

definition getFolders :: "host \<Rightarrow> string list" where
  \<comment> \<open>the \<open>catch\<close> logs the error and returns the empty array\<close>
  "getFolders h =
     (case root h of
        None \<Rightarrow> []
      | Some items \<Rightarrow> map fst (filter (\<lambda>item. isDirectory (snd item)) items))"

definition sortVersionsDescending :: "string list \<Rightarrow> versions_result" where
  \<comment> \<open>the argument is an array of strings, so the \<open>Array.isArray\<close> and \<open>typeof\<close> tests
      hold, and nothing in the \<open>try\<close> block throws\<close>
  "sortVersionsDescending versions =
     Status_true (array_sort compare_versions (filter version_grammar versions))"

definition get_versions :: "host \<Rightarrow> versions_result" where
  \<comment> \<open>\<open>getFolders\<close> does not throw, so the \<open>catch\<close> of \<open>get_versions\<close> is never entered\<close>
  "get_versions h = sortVersionsDescending (getFolders h)"

subsection \<open>Paths (POSIX)\<close>

fun normalizeString :: "bool \<Rightarrow> string list \<Rightarrow> string list \<Rightarrow> string list" where
  \<comment> \<open>the segment loop of Node's path normalisation: empty and \<open>.\<close> segments are dropped,
      \<open>..\<close> removes the segment before it\<close>
  "normalizeString allowAboveRoot res [] = res"
| "normalizeString allowAboveRoot res (s # ss) =
     (if s = [] \<or> s = ''.'' then normalizeString allowAboveRoot res ss
      else if s = ''..'' then
        (if res \<noteq> [] \<and> last res \<noteq> ''..'' then normalizeString allowAboveRoot (butlast res) ss
         else if allowAboveRoot then normalizeString allowAboveRoot (res @ [''..'']) ss
         else normalizeString allowAboveRoot res ss)
      else normalizeString allowAboveRoot (res @ [s]) ss)"

definition isAbsolute :: "string \<Rightarrow> bool" where
  "isAbsolute p = (p \<noteq> [] \<and> hd p = CHR ''/'')"

definition path_normalize :: "string \<Rightarrow> string" where
  "path_normalize p =
     (if p = [] then ''.''
      else
        (let trailingSeparator = (last p = CHR ''/'');
             q = join_with ''/'' (normalizeString (\<not> isAbsolute p) [] (split_on CHR ''/'' p))
         in if q = [] then (if isAbsolute p then ''/'' else if trailingSeparator then ''./'' else ''.'')
            else (if isAbsolute p then ''/'' else []) @ q @ (if trailingSeparator then ''/'' else [])))"

definition path_join :: "string \<Rightarrow> string \<Rightarrow> string" where
  \<comment> \<open>\<open>path.join(a, b)\<close>: the non-empty arguments joined by a slash, then normalised\<close>
  "path_join a b =
     path_normalize (if a = [] then b else if b = [] then a else a @ ''/'' @ b)"

definition path_resolve :: "string \<Rightarrow> string \<Rightarrow> string" where
  \<comment> \<open>\<open>path.resolve(p)\<close> in the working directory \<open>cwd\<close>, itself an absolute path\<close>
  "path_resolve cwd p =
     CHR ''/'' # join_with ''/''
       (normalizeString False []
          (split_on CHR ''/'' (if isAbsolute p then p else if p = [] then cwd else cwd @ ''/'' @ p)))"

definition path_basename :: "string \<Rightarrow> string" where
  \<comment> \<open>\<open>path.basename(p)\<close> of a path that does not end in a slash\<close>
  "path_basename p = last (split_on CHR ''/'' p)"

subsection \<open>The file system below the package root, and TARer.js\<close>

definition child_path :: "string \<Rightarrow> string \<Rightarrow> string" where
  "child_path base name = (if base = ''/'' then base @ name else base @ ''/'' @ name)"

definition stat :: "host \<Rightarrow> string \<Rightarrow> node option" where
  \<comment> \<open>the entry at an absolute path, for the paths of the entries of the package root\<close>
  "stat h p =
     (case root h of
        None \<Rightarrow> None
      | Some items \<Rightarrow> map_of (map (\<lambda>(name, n). (child_path (BASE_DIR h) name, n)) items) p)"

datatype tar_entry = Tar_dir path | Tar_file path string

datatype archive = Archive "tar_entry list" | Broken "tar_entry list"
  \<comment> \<open>the bytes of a download, by what \<open>tar.x\<close> does with them: \<open>Archive es\<close> unpacks the
      entries \<open>es\<close> and ends well; \<open>Broken es\<close> (truncated, malformed) unpacks \<open>es\<close> and
      then fails\<close>

definition tar_create :: "string \<Rightarrow> (path \<times> string) list \<Rightarrow> archive" where
  \<comment> \<open>\<open>tar.create({gzip, cwd: dirname}, [basename])\<close>: the directory itself, then every
      file below it, each path starting with the directory's name (the entries of the
      directories in between hold no content and are left out)\<close>
  "tar_create name files =
     Archive (Tar_dir [name] # map (\<lambda>(p, text). Tar_file (name # p) text) files)"

definition createTarStream :: "host \<Rightarrow> string \<Rightarrow> archive" where
  \<comment> \<open>when the folder is missing or is no directory the function returns a stream that
      ends at once, without data and without an error event: no entries\<close>
  "createTarStream h folderPath =
     (case stat h folderPath of
        Some (Dir files) \<Rightarrow> tar_create (path_basename folderPath) files
      | _ \<Rightarrow> Archive [])"

subsection \<open>The endpoints\<close>

datatype error_json = Error_json nat string
  \<comment> \<open>\<open>res.status(code).json({error: message})\<close>\<close>

datatype download = Download string archive
  \<comment> \<open>the header \<open>Content-Disposition\<close> and the streamed body (status 200)\<close>

datatype query = Q_absent | Q_string string | Q_other
  \<comment> \<open>\<open>req.query.version\<close>: missing, a string, or an array or object built by the query
      parser (\<open>?version[]=1\<close>)\<close>

definition versions_endpoint :: "host \<Rightarrow> error_json + string list \<times> string option" where
  \<comment> \<open>\<open>app.get('/versions')\<close>; on the right the fields \<open>versions\<close> and \<open>latest\<close>
      (\<open>None\<close> is \<open>null\<close>)\<close>
  "versions_endpoint h =
     (case get_versions h of
        Status_false e \<Rightarrow> Inl (Error_json 500 e)
      | Status_true versions \<Rightarrow>
          Inr (versions, if length versions > 0 then Some (hd versions) else None))"

definition health_endpoint :: "host \<Rightarrow> string list" where
  \<comment> \<open>\<open>app.get('/health')\<close>, its field \<open>versions\<close>: \<open>get_versions().versions || []\<close>\<close>
  "health_endpoint h =
     (case get_versions h of Status_false e \<Rightarrow> [] | Status_true versions \<Rightarrow> versions)"

definition not_found_message :: "string \<Rightarrow> string" where
  \<comment> \<open>the template literal of line 115\<close>
  "not_found_message version =
     ''Version '' @ version @
     '' not found, try a different version or 'version=LATEST' to get the latest version''"

definition resolve_version :: "string list \<Rightarrow> query \<Rightarrow> error_json + string" where
  \<comment> \<open>lines 81 to 119 of \<open>app.get('/updates')\<close>, after the catalog was read: the version
      to serve, or the reply that ends the request. Calling \<open>toUpperCase\<close> on an array or
      object throws a TypeError, which the handler's \<open>catch\<close> answers with 500. The test
      \<open>!foundVersion\<close> also holds for an empty string.\<close>
  "resolve_version versions q =
     (if length versions = 0 then Inl (Error_json 404 ''No available releases for this app'')
      else
        (case (case q of Q_absent \<Rightarrow> Q_string ''LATEST''
                       | Q_string s \<Rightarrow> Q_string (if s = [] then ''LATEST'' else s)
                       | Q_other \<Rightarrow> Q_other) of
           Q_string version \<Rightarrow>
             (if toUpperCase version = ''LATEST'' then Inr (hd versions)
              else
                (let cleanVersion = remove_spaces version
                 in case find (\<lambda>v. toUpperCase v = toUpperCase cleanVersion) versions of
                      None \<Rightarrow> Inl (Error_json 404 (not_found_message version))
                    | Some foundVersion \<Rightarrow>
                        if foundVersion = [] then Inl (Error_json 404 (not_found_message version))
                        else Inr foundVersion))
         | _ \<Rightarrow> Inl (Error_json 500 ''Internal server error'')))"

definition send_version :: "host \<Rightarrow> string \<Rightarrow> error_json + download" where
  \<comment> \<open>lines 121 to 158: the containment check, the existence check and the stream\<close>
  "send_version h version =
     (let folderPath = path_join (BASE_DIR h) version;
          resolvedPath = path_resolve (working_dir h) folderPath
      in if \<not> prefix (BASE_DIR h) resolvedPath then Inl (Error_json 403 ''Invalid version path'')
         else if \<not> (case stat h resolvedPath of Some n \<Rightarrow> isDirectory n | None \<Rightarrow> False)
           then Inl (Error_json 404 (''Version '' @ version @ '' not found''))
         else Inr (Download (''attachment; filename='' @ [CHR 0x22] @ version @ ''.tar.gz'' @ [CHR 0x22])
                            (createTarStream h resolvedPath)))"

definition updates_endpoint :: "host \<Rightarrow> query \<Rightarrow> error_json + download" where
  \<comment> \<open>\<open>app.get('/updates')\<close>\<close>
  "updates_endpoint h q =
     (case get_versions h of
        Status_false e \<Rightarrow> Inl (Error_json 403 e)
      | Status_true versions \<Rightarrow>
          (case resolve_version versions q of
             Inl reply \<Rightarrow> Inl reply
           | Inr version \<Rightarrow> send_version h version))"

section \<open>Client (Updates-Client.js)\<close>

subsection \<open>State and surroundings\<close>

record client =
  downloadsDir :: string
  \<comment> \<open>\<open>path.join(__dirname, 'downloads')\<close>\<close>
  downloads :: "string \<rightharpoonup> archive"
  \<comment> \<open>the downloaded files, by path\<close>
  app :: "(path \<rightharpoonup> string) option"
  \<comment> \<open>the directory \<open>appPath\<close>: \<open>None\<close> when it does not exist, else its files by
      relative path\<close>
  version_txt :: "string option"
  \<comment> \<open>the contents of \<open>versionFile\<close>, which lies beside \<open>appPath\<close>; \<open>None\<close> when
      there is no such file\<close>

text \<open>
  The three stores are apart: a downloaded file is neither the version file nor a file of
  the application directory. This holds whenever the file name of the download is a plain
  name, as \<open>1.0.0.tar.gz\<close> is. \<open>rmSync\<close> and \<open>mkdirSync\<close> are taken to succeed.
\<close>

record world =
  versions_reply :: "string list option option"
  \<comment> \<open>\<open>GET /versions\<close>: \<open>None\<close> when axios throws (no connection, or a status outside
      2xx), else the field \<open>versions\<close> of the body, if it has one\<close>
  health_reply :: "string list option option"
  \<comment> \<open>\<open>GET /health\<close>, likewise\<close>
  updates_reply :: "string \<Rightarrow> download option"
  \<comment> \<open>\<open>GET /updates?version=...\<close>: \<open>None\<close> when axios throws\<close>
  writeFile_throws :: bool
  \<comment> \<open>whether \<open>writeFileSync(versionFile, ...)\<close> throws\<close>
  unlink_throws :: bool
  \<comment> \<open>whether \<open>unlinkSync(tarPath)\<close> throws\<close>

datatype stage = Downloading | Extracting | Committing

datatype outcome = Done | Failed stage
  \<comment> \<open>\<open>update\<close> returns \<open>true\<close> for \<open>Done\<close> and \<open>false\<close> for \<open>Failed\<close>; the stage names
      the statement of the \<open>try\<close> block that threw\<close>


subsection \<open>Reading\<close>




subsection \<open>Downloading\<close>

definition greedy_group :: "string \<Rightarrow> string option" where
  \<comment> \<open>\<open>(.+)"\<close> at the start of the text: the longest run of characters of the line that
      a double quote follows\<close>
  "greedy_group s =
     (let line = takeWhile (\<lambda>c. c \<noteq> CHR 0x0A \<and> c \<noteq> CHR 0x0D) s;
          g = rev (tl (dropWhile (\<lambda>c. c \<noteq> CHR 0x22) (rev line)))
      in if CHR 0x22 \<in> set line \<and> g \<noteq> [] then Some g else None)"

fun match_filename :: "string \<Rightarrow> string option" where
  \<comment> \<open>\<open>contentDisposition.match(/filename="(.+)"/)\<close>, the group of the leftmost match\<close>
  "match_filename [] = None"
| "match_filename (c # cs) =
     (if prefix (''filename='' @ [CHR 0x22]) (c # cs) then
        (case greedy_group (drop 10 (c # cs)) of
           Some g \<Rightarrow> Some g
         | None \<Rightarrow> match_filename cs)
      else match_filename cs)"

definition downloadVersion :: "world \<Rightarrow> string \<Rightarrow> client \<Rightarrow> string option \<times> client" where
  \<comment> \<open>the path of the downloaded file, or \<open>None\<close> when the function throws\<close>
  "downloadVersion w version c =
     (case updates_reply w version of
        None \<Rightarrow> (None, c)
      | Some (Download contentDisposition body) \<Rightarrow>
          (let filename = (case match_filename contentDisposition of
                             Some name \<Rightarrow> name
                           | None \<Rightarrow> version @ ''.tar.gz'');
               filePath = path_join (downloadsDir c) filename
           in (Some filePath, c\<lparr>downloads := (downloads c)(filePath \<mapsto> body)\<rparr>)))"

subsection \<open>Unpacking\<close>

definition unpack_entry :: "nat \<Rightarrow> (path \<rightharpoonup> string) \<Rightarrow> tar_entry \<Rightarrow> (path \<rightharpoonup> string)" where
  \<comment> \<open>one entry under the option \<open>strip\<close>: the leading path elements are removed, and an
      entry with no element left is skipped; a later file replaces an earlier one\<close>
  "unpack_entry strip dir e =
     (case e of
        Tar_dir p \<Rightarrow> dir
      | Tar_file p text \<Rightarrow> if length p < strip + 1 then dir else dir(drop strip p \<mapsto> text))"

definition tar_x :: "nat \<Rightarrow> tar_entry list \<Rightarrow> (path \<rightharpoonup> string) \<Rightarrow> (path \<rightharpoonup> string)" where
  \<comment> \<open>the files of the directory \<open>cwd\<close> after \<open>tar.x({cwd, strip})\<close> unpacked the entries\<close>
  "tar_x strip es dir = foldl (unpack_entry strip) dir es"

definition clear_app :: "client \<Rightarrow> client" where
  \<comment> \<open>lines 129 to 135: \<open>rmSync(appPath, {recursive, force})\<close> if the directory exists,
      then \<open>mkdirSync(appPath)\<close>\<close>
  "clear_app c =
     (let c1 = (case app c of Some files \<Rightarrow> c\<lparr>app := None\<rparr> | None \<Rightarrow> c)
      in c1\<lparr>app := Some Map.empty\<rparr>)"

fun archive_entries :: "archive \<Rightarrow> tar_entry list" where
  "archive_entries (Archive es) = es"
| "archive_entries (Broken es) = es"

fun archive_ends_well :: "archive \<Rightarrow> bool" where
  "archive_ends_well (Archive es) = True"
| "archive_ends_well (Broken es) = False"

definition extractTar :: "string \<Rightarrow> client \<Rightarrow> bool \<times> client" where
  \<comment> \<open>\<open>True\<close> when the function returns, \<open>False\<close> when it throws (the file or the
      directory is missing, or \<open>tar.x\<close> fails)\<close>
  "extractTar tarPath c =
     (let c2 = clear_app c
      in case (downloads c2 tarPath, app c2) of
           (Some a, Some dir) \<Rightarrow>
             (archive_ends_well a, c2\<lparr>app := Some (tar_x 1 (archive_entries a) dir)\<rparr>)
         | _ \<Rightarrow> (False, c2))"

subsection \<open>Recording and the update\<close>

definition recordVersion :: "world \<Rightarrow> string \<Rightarrow> client \<Rightarrow> bool \<times> client" where
  "recordVersion w version c =
     (if writeFile_throws w then (False, c) else (True, c\<lparr>version_txt := Some version\<rparr>))"

definition update :: "world \<Rightarrow> string \<Rightarrow> client \<Rightarrow> outcome \<times> client" where
  "update w version c =
     (case downloadVersion w version c of
        (None, c1) \<Rightarrow> (Failed Downloading, c1)
      | (Some tarPath, c1) \<Rightarrow>
          (case extractTar tarPath c1 of
             (False, c2) \<Rightarrow> (Failed Extracting, c2)
           | (True, c2) \<Rightarrow>
               (let actualVersion =
                      (if version = ''LATEST''
                       then replace_first ''.tar.gz'' [] (path_basename tarPath)
                       else version)
                in case recordVersion w actualVersion c2 of
                     (False, c3) \<Rightarrow> (Failed Committing, c3)
                   | (True, c3) \<Rightarrow>
                       (if unlink_throws w then (Failed Committing, c3)
                        else (Done, c3\<lparr>downloads := (downloads c3)(tarPath := None)\<rparr>)))))"

subsection \<open>A client talking to the host\<close>

definition serve :: "host \<Rightarrow> world" where
  \<comment> \<open>the replies of a host that is reached; every error reply of the host has a status
      outside 2xx, so axios throws on it. The client sends its argument as the query string.\<close>
  "serve h =
     \<lparr>versions_reply = (case versions_endpoint h of Inl e \<Rightarrow> None | Inr (versions, latest) \<Rightarrow> Some (Some versions)),
      health_reply = Some (Some (health_endpoint h)),
      updates_reply = (\<lambda>version. case updates_endpoint h (Q_string version) of
                                   Inl e \<Rightarrow> None
                                 | Inr d \<Rightarrow> Some d),
      writeFile_throws = False,
      unlink_throws = False\<rparr>"

section \<open>The ordering of version tuples, in the words of the specification\<close>

definition pad_zero :: "nat \<Rightarrow> nat list \<Rightarrow> nat list" where
  \<comment> \<open>missing components are read as 0\<close>
  "pad_zero n t = t @ replicate (n - length t) 0"

definition tuple_greater :: "nat list \<Rightarrow> nat list \<Rightarrow> bool" where
  \<comment> \<open>component by component up to the longer length: the first component that differs
      is the larger one in \<open>s\<close>\<close>
  "tuple_greater s t =
     (let n = max (length s) (length t); x = pad_zero n s; y = pad_zero n t
      in \<exists>i \<in> set [0..<n]. x ! i > y ! i \<and> (\<forall>j \<in> set [0..<i]. x ! j = y ! j))"

definition tuple_equal :: "nat list \<Rightarrow> nat list \<Rightarrow> bool" where
  "tuple_equal s t =
     (let n = max (length s) (length t) in pad_zero n s = pad_zero n t)"

definition exact_parts :: "string \<Rightarrow> nat list" where
  \<comment> \<open>the tuple of a version, every component with its exact value\<close>
  "exact_parts a = map decimal (split_on CHR ''.'' a)"

definition small_parts :: "string \<Rightarrow> bool" where
  \<comment> \<open>every component is below \<open>2^53\<close>, where doubles are exact\<close>
  "small_parts a = (\<forall>p \<in> set (split_on CHR ''.'' a). decimal p < 2 ^ 53)"

definition descending :: "string list \<Rightarrow> bool" where
  \<comment> \<open>no version is followed by a greater one; the components are the numbers that the
      comparator reads\<close>
  "descending vs =
     sorted_wrt (\<lambda>x y. \<not> tuple_greater (version_parts y) (version_parts x)) vs"

definition strictly_descending :: "string list \<Rightarrow> bool" where
  \<comment> \<open>every version is greater than all that follow it\<close>
  "strictly_descending vs =
     sorted_wrt (\<lambda>x y. tuple_greater (version_parts x) (version_parts y)) vs"

definition descending_exact :: "string list \<Rightarrow> bool" where
  \<comment> \<open>the same with the exact values of the components\<close>
  "descending_exact vs =
     sorted_wrt (\<lambda>x y. \<not> tuple_greater (exact_parts y) (exact_parts x)) vs"

definition strictly_descending_exact :: "string list \<Rightarrow> bool" where
  "strictly_descending_exact vs =
     sorted_wrt (\<lambda>x y. tuple_greater (exact_parts x) (exact_parts y)) vs"

definition first_gt :: "(nat \<Rightarrow> nat) \<Rightarrow> (nat \<Rightarrow> nat) \<Rightarrow> bool" where
  \<comment> \<open>used in the proofs: the same order on component functions\<close>
  "first_gt f g = (\<exists>k. f k > g k \<and> (\<forall>j<k. f j = g j))"

definition clean_segments :: "string list \<Rightarrow> bool" where
  \<comment> \<open>used in the proofs: the segments of a normalised absolute path\<close>
  "clean_segments ss =
     (\<forall>s \<in> set ss. s \<noteq> [] \<and> s \<noteq> ''.'' \<and> s \<noteq> ''..'' \<and> CHR ''/'' \<notin> set s)"

section \<open>Sample hosts and clients\<close>

definition host_demo :: host where
  "host_demo =
     \<lparr>working_dir = ''/srv/Package Updates'',
      BASE_DIR = ''/srv/app'',
      root = Some [(''1.0.0'', Dir [([''bin'', ''run''], ''old'')]),
                   (''2.1.0'', Dir [([''main.js''], ''new'')]),
                   (''v1.0'', Dir []),
                   (''1.0.0-beta.1'', Dir []),
                   (''3.0.0'', File ''notes'')]\<rparr>"

definition host_ties :: host where
  "host_ties = host_demo\<lparr>root := Some [(''1'', Dir []), (''1.0'', Dir [])]\<rparr>"

definition host_big :: host where
  \<comment> \<open>two versions that differ beyond the precision of a double\<close>
  "host_big =
     host_demo\<lparr>root := Some [(''9007199254740992'', Dir []), (''9007199254740993'', Dir [])]\<rparr>"

definition host_unreadable :: host where
  "host_unreadable = host_demo\<lparr>root := None\<rparr>"

definition client_demo :: client where
  "client_demo =
     \<lparr>downloadsDir = ''/opt/client/downloads'',
      downloads = Map.empty,
      app = Some [[''stale.txt''] \<mapsto> ''left over''],
      version_txt = Some ''1.0.0''\<rparr>"







section \<open>Abbreviations used in the proofs about the update\<close>



section \<open>The comparator is the numeric order of the tuples\<close>

lemma first_gt_cases:
  assumes "first_gt h f"
  shows "first_gt g f \<or> first_gt h g"
proof -
  from assms obtain k where k: "h k > f k" "\<forall>j<k. h j = f j"
    unfolding first_gt_def by blast
  show ?thesis
  proof (cases "\<exists>j\<le>k. g j \<noteq> f j")
    case False
    then have "\<forall>j\<le>k. g j = f j" by blast
    with k have "h k > g k \<and> (\<forall>j<k. h j = g j)" by auto
    then show ?thesis unfolding first_gt_def by blast
  next
    case True
    then have "\<exists>j. j \<le> k \<and> g j \<noteq> f j" by blast
    then obtain m where m: "m \<le> k \<and> g m \<noteq> f m" "\<forall>j<m. \<not> (j \<le> k \<and> g j \<noteq> f j)"
      using exists_least_iff [of "\<lambda>j. j \<le> k \<and> g j \<noteq> f j"] by blast
    then have below: "\<forall>j<m. g j = f j" by auto
    show ?thesis
    proof (cases "g m > f m")
      case True
      with below show ?thesis unfolding first_gt_def by blast
    next
      case False
      with m have lt: "g m < f m" by auto
      have "f m \<le> h m" using k m by (cases "m = k") auto
      with lt have "h m > g m" by simp
      moreover have "\<forall>j<m. h j = g j" using below k m by auto
      ultimately show ?thesis unfolding first_gt_def by blast
    qed
  qed
qed

lemma first_gt_asym: "first_gt f g \<Longrightarrow> \<not> first_gt g f"
  unfolding first_gt_def
  by (metis less_asym' linorder_neqE_nat nat_neq_iff)

lemma first_gt_total: "first_gt f g \<or> first_gt g f \<or> (\<forall>k. f k = g k)"
proof (cases "\<exists>k. f k \<noteq> g k")
  case False then show ?thesis by blast
next
  case True
  then obtain m where m: "f m \<noteq> g m" "\<forall>j<m. \<not> f j \<noteq> g j"
    using exists_least_iff [of "\<lambda>j. f j \<noteq> g j"] by blast
  then show ?thesis unfolding first_gt_def by (metis nat_neq_iff)
qed

lemma first_gt_here:
  assumes "\<forall>j<i. f j = g j" "f i \<noteq> g i"
  shows "first_gt f g = (f i > g i)"
proof
  assume "first_gt f g"
  then obtain k where k: "f k > g k" "\<forall>j<k. f j = g j" unfolding first_gt_def by blast
  have "k = i"
  proof (rule ccontr)
    assume "k \<noteq> i"
    then consider "k < i" | "i < k" by linarith
    then show False
    proof cases
      case 1 with assms(1) k(1) show False by auto
    next
      case 2 with assms(2) k(2) show False by auto
    qed
  qed
  with k show "f i > g i" by simp
next
  assume "f i > g i"
  with assms(1) show "first_gt f g" unfolding first_gt_def by blast
qed

lemma compare_loop_sign:
  assumes "\<forall>j<i. part_or_0 a j = part_or_0 b j"
  shows "(compare_loop a b i < 0) = first_gt (part_or_0 a) (part_or_0 b)
       \<and> (compare_loop a b i > 0) = first_gt (part_or_0 b) (part_or_0 a)"
  using assms
proof (induction a b i rule: compare_loop.induct)
  case (1 a b i)
  show ?case
  proof (cases "i < max (length a) (length b)")
    case False
    then have "\<forall>k\<ge>i. part_or_0 a k = part_or_0 b k" by (auto simp add: part_or_0_def)
    with "1.prems" have "\<forall>k. part_or_0 a k = part_or_0 b k" by (metis not_le)
    then have "\<not> first_gt (part_or_0 a) (part_or_0 b)" "\<not> first_gt (part_or_0 b) (part_or_0 a)"
      unfolding first_gt_def by auto
    moreover have "compare_loop a b i = 0" using False by (simp add: compare_loop.simps)
    ultimately show ?thesis by simp
  next
    case True
    show ?thesis
    proof (cases "part_or_0 a i = part_or_0 b i")
      case same: True
      with "1.prems" have "\<forall>j<i + 1. part_or_0 a j = part_or_0 b j"
        by (metis Suc_eq_plus1 less_Suc_eq)
      with "1.IH" [OF True refl refl] same
      have "(compare_loop a b (i + 1) < 0) = first_gt (part_or_0 a) (part_or_0 b)
          \<and> (compare_loop a b (i + 1) > 0) = first_gt (part_or_0 b) (part_or_0 a)" by simp
      moreover have "compare_loop a b i = compare_loop a b (i + 1)"
        using True same by (subst compare_loop.simps) simp
      ultimately show ?thesis by simp
    next
      case differ: False
      have c: "compare_loop a b i = int (part_or_0 b i) - int (part_or_0 a i)"
        using True differ by (subst compare_loop.simps) simp
      have "first_gt (part_or_0 a) (part_or_0 b) = (part_or_0 a i > part_or_0 b i)"
        using first_gt_here [of i "part_or_0 a" "part_or_0 b"] "1.prems" differ by blast
      moreover have "first_gt (part_or_0 b) (part_or_0 a) = (part_or_0 b i > part_or_0 a i)"
        using first_gt_here [of i "part_or_0 b" "part_or_0 a"] "1.prems" differ by simp
      ultimately show ?thesis using c by auto
    qed
  qed
qed

lemma pad_zero_nth: "length t \<le> n \<Longrightarrow> i < n \<Longrightarrow> pad_zero n t ! i = part_or_0 t i"
  by (simp add: pad_zero_def part_or_0_def nth_append)

lemma part_or_0_beyond: "length t \<le> k \<Longrightarrow> part_or_0 t k = 0"
  by (simp add: part_or_0_def)

lemma tuple_greater_first_gt: "tuple_greater s t = first_gt (part_or_0 s) (part_or_0 t)"
proof
  define n where "n = max (length s) (length t)"
  have ls: "length s \<le> n" and lt: "length t \<le> n" by (simp_all add: n_def)
  {
    assume "tuple_greater s t"
    then obtain i where i: "i < n" "pad_zero n s ! i > pad_zero n t ! i"
        "\<forall>j<i. pad_zero n s ! j = pad_zero n t ! j"
      unfolding tuple_greater_def n_def Let_def by auto
    have "part_or_0 s i > part_or_0 t i" using i(1,2) ls lt by (simp add: pad_zero_nth)
    moreover have "\<forall>j<i. part_or_0 s j = part_or_0 t j"
      using i(1,3) ls lt by (simp add: pad_zero_nth)
    ultimately show "first_gt (part_or_0 s) (part_or_0 t)" unfolding first_gt_def by blast
  }
  {
    assume "first_gt (part_or_0 s) (part_or_0 t)"
    then obtain k where k: "part_or_0 s k > part_or_0 t k" "\<forall>j<k. part_or_0 s j = part_or_0 t j"
      unfolding first_gt_def by blast
    have kn: "k < n"
    proof (rule ccontr)
      assume "\<not> k < n"
      then have "part_or_0 s k = 0" using ls by (simp add: part_or_0_beyond)
      with k(1) show False by simp
    qed
    have "pad_zero n s ! k > pad_zero n t ! k" using k(1) kn ls lt by (simp add: pad_zero_nth)
    moreover have "\<forall>j<k. pad_zero n s ! j = pad_zero n t ! j"
      using k(2) kn ls lt by (simp add: pad_zero_nth)
    ultimately show "tuple_greater s t"
      unfolding tuple_greater_def Let_def n_def [symmetric] using kn by auto
  }
qed

lemma tuple_equal_parts: "tuple_equal s t = (\<forall>k. part_or_0 s k = part_or_0 t k)"
proof
  define n where "n = max (length s) (length t)"
  have ls: "length s \<le> n" and lt: "length t \<le> n" by (simp_all add: n_def)
  have len: "length (pad_zero n s) = n" "length (pad_zero n t) = n"
    using ls lt by (simp_all add: pad_zero_def)
  {
    assume "tuple_equal s t"
    then have e: "pad_zero n s = pad_zero n t" unfolding tuple_equal_def n_def Let_def .
    show "\<forall>k. part_or_0 s k = part_or_0 t k"
    proof
      fix k
      show "part_or_0 s k = part_or_0 t k"
      proof (cases "k < n")
        case True
        then show ?thesis using e ls lt pad_zero_nth by metis
      next
        case False
        then show ?thesis using ls lt by (simp add: part_or_0_beyond)
      qed
    qed
  }
  {
    assume a: "\<forall>k. part_or_0 s k = part_or_0 t k"
    have "pad_zero n s = pad_zero n t"
      by (rule nth_equalityI) (use len a ls lt in \<open>simp_all add: pad_zero_nth\<close>)
    then show "tuple_equal s t" unfolding tuple_equal_def n_def Let_def .
  }
qed

lemma compare_versions_neg:
  "(compare_versions a b < 0) = tuple_greater (version_parts a) (version_parts b)"
  using compare_loop_sign [of 0 "version_parts a" "version_parts b"]
  by (simp add: compare_versions_def tuple_greater_first_gt)

lemma compare_versions_pos:
  "(compare_versions a b > 0) = tuple_greater (version_parts b) (version_parts a)"
  using compare_loop_sign [of 0 "version_parts a" "version_parts b"]
  by (simp add: compare_versions_def tuple_greater_first_gt)

lemma compare_versions_zero:
  "(compare_versions a b = 0) = tuple_equal (version_parts a) (version_parts b)"
proof -
  have "(compare_versions a b = 0) =
        (\<not> first_gt (part_or_0 (version_parts a)) (part_or_0 (version_parts b))
         \<and> \<not> first_gt (part_or_0 (version_parts b)) (part_or_0 (version_parts a)))"
    using compare_loop_sign [of 0 "version_parts a" "version_parts b"]
    by (auto simp add: compare_versions_def)
  also have "\<dots> = (\<forall>k. part_or_0 (version_parts a) k = part_or_0 (version_parts b) k)"
    using first_gt_total [of "part_or_0 (version_parts a)" "part_or_0 (version_parts b)"]
    by (auto simp add: first_gt_def)
  finally show ?thesis by (simp add: tuple_equal_parts)
qed

lemma not_greater_trans:
  assumes "\<not> tuple_greater t s" "\<not> tuple_greater u t"
  shows "\<not> tuple_greater u s"
  using assms first_gt_cases [of "part_or_0 u" "part_or_0 s" "part_or_0 t"]
  by (auto simp add: tuple_greater_first_gt)

lemma greater_or_not: "tuple_greater s t \<Longrightarrow> \<not> tuple_greater t s"
  by (simp add: tuple_greater_first_gt first_gt_asym)

lemma greater_or_equal:
  "tuple_greater s t \<or> tuple_greater t s \<or> tuple_equal s t"
  using first_gt_total [of "part_or_0 s" "part_or_0 t"]
  by (simp add: tuple_greater_first_gt tuple_equal_parts)

section \<open>The sort\<close>

lemma mset_insert_sorted: "mset (insert_sorted cmp x ys) = add_mset x (mset ys)"
  by (induction ys) auto

lemma mset_array_sort: "mset (array_sort cmp xs) = mset xs"
  unfolding array_sort_def by (induction xs) (auto simp add: mset_insert_sorted)

lemma set_insert_sorted: "set (insert_sorted cmp x ys) = insert x (set ys)"
  by (induction ys) auto

lemma descending_insert:
  "descending ys \<Longrightarrow> descending (insert_sorted compare_versions x ys)"
proof (induction ys)
  case Nil
  then show ?case by (simp add: descending_def)
next
  case (Cons y ys)
  show ?case
  proof (cases "compare_versions x y \<le> 0")
    case True
    then have xy: "\<not> tuple_greater (version_parts y) (version_parts x)"
      using compare_versions_pos [of x y] by simp
    have "\<forall>z\<in>set ys. \<not> tuple_greater (version_parts z) (version_parts y)"
      using Cons.prems by (simp add: descending_def)
    with xy have "\<forall>z\<in>set ys. \<not> tuple_greater (version_parts z) (version_parts x)"
      using not_greater_trans by blast
    with xy True Cons.prems show ?thesis by (simp add: descending_def)
  next
    case False
    then have "tuple_greater (version_parts y) (version_parts x)"
      using compare_versions_pos [of x y] by simp
    then have yx: "\<not> tuple_greater (version_parts x) (version_parts y)"
      by (rule greater_or_not)
    have tl: "descending (insert_sorted compare_versions x ys)"
      using Cons by (simp add: descending_def)
    have "\<forall>z\<in>set (insert_sorted compare_versions x ys).
            \<not> tuple_greater (version_parts z) (version_parts y)"
      using Cons.prems yx by (simp add: set_insert_sorted descending_def)
    with tl False show ?thesis by (simp add: descending_def)
  qed
qed

lemma descending_array_sort: "descending (array_sort compare_versions xs)"
  unfolding array_sort_def by (induction xs) (simp_all add: descending_def descending_insert [unfolded descending_def])

lemma get_versions_mset:
  "get_versions h = Status_true (array_sort compare_versions (filter version_grammar (getFolders h)))"
  by (simp add: get_versions_def sortVersionsDescending_def)

lemma catalog_grammar:
  assumes "get_versions h = Status_true versions" "v \<in> set versions"
  shows "version_grammar v"
proof -
  have "versions = array_sort compare_versions (filter version_grammar (getFolders h))"
    using assms(1) by (simp add: get_versions_mset)
  then have "mset versions = mset (filter version_grammar (getFolders h))"
    by (simp only: mset_array_sort)
  then have "set versions = set (filter version_grammar (getFolders h))"
    by (rule mset_eq_setD)
  with assms(2) show ?thesis by simp
qed

lemma descending_distinct_strict:
  assumes "descending vs" "distinct vs"
    and "\<forall>x\<in>set vs. \<forall>y\<in>set vs. x \<noteq> y \<longrightarrow> \<not> tuple_equal (version_parts x) (version_parts y)"
  shows "strictly_descending vs"
  unfolding strictly_descending_def sorted_wrt_iff_nth_less
proof (intro allI impI)
  fix i j
  assume ij: "i < j" "j < length vs"
  then have ne: "vs ! i \<noteq> vs ! j" using assms(2) by (simp add: nth_eq_iff_index_eq)
  have "\<not> tuple_greater (version_parts (vs ! j)) (version_parts (vs ! i))"
    using assms(1) ij unfolding descending_def sorted_wrt_iff_nth_less by blast
  moreover have "\<not> tuple_equal (version_parts (vs ! i)) (version_parts (vs ! j))"
    using assms(3) ne ij by simp
  ultimately show "tuple_greater (version_parts (vs ! i)) (version_parts (vs ! j))"
    using greater_or_equal [of "version_parts (vs ! i)" "version_parts (vs ! j)"] by blast
qed

section \<open>Unpacking and the update, step by step\<close>














section \<open>Catalog entries as strings\<close>

lemma grammar_from_chars:
  "grammar_from d s \<Longrightarrow> \<forall>c\<in>set s. is_digit c \<or> c = CHR ''.''"
  by (induction d s rule: grammar_from.induct) (auto split: if_splits)

lemma grammar_from_hd:
  "grammar_from False s \<Longrightarrow> s \<noteq> [] \<and> is_digit (hd s)"
  by (cases s) (auto split: if_splits)

lemma grammar_from_last:
  "grammar_from d s \<Longrightarrow> s \<noteq> [] \<Longrightarrow> is_digit (last s)"
  by (induction d s rule: grammar_from.induct) (auto split: if_splits)

lemma not_digit_dot: "\<not> is_digit CHR ''.''" and not_digit_slash: "\<not> is_digit CHR ''/''"
  by (simp_all add: is_digit_def)

lemma version_grammar_facts:
  assumes "version_grammar v"
  shows "v \<noteq> []" "CHR ''/'' \<notin> set v" "v \<noteq> ''.''" "v \<noteq> ''..''" "last v \<noteq> CHR ''/''"
proof -
  have g: "grammar_from False v" using assms by (simp add: version_grammar_def)
  show ne: "v \<noteq> []" using grammar_from_hd [OF g] by simp
  show "CHR ''/'' \<notin> set v" using grammar_from_chars [OF g] not_digit_slash by auto
  have "is_digit (hd v)" using grammar_from_hd [OF g] by simp
  then show "v \<noteq> ''.''" "v \<noteq> ''..''" using not_digit_dot by auto
  have "is_digit (last v)" using grammar_from_last [OF g ne] .
  then show "last v \<noteq> CHR ''/''" using not_digit_slash by auto
qed

lemma toUpperCase_char_digit_dot:
  assumes "is_digit c \<or> c = CHR ''.''"
  shows "toUpperCase_char c = c"
proof -
  from assms have "c = CHR ''0'' \<or> c = CHR ''1'' \<or> c = CHR ''2'' \<or> c = CHR ''3'' \<or> c = CHR ''4''
      \<or> c = CHR ''5'' \<or> c = CHR ''6'' \<or> c = CHR ''7'' \<or> c = CHR ''8'' \<or> c = CHR ''9''
      \<or> c = CHR ''.''"
    by (auto simp add: is_digit_def)
  then show ?thesis
    by (elim disjE) (simp_all add: toUpperCase_char_def)
qed

lemma toUpperCase_char_slash: "toUpperCase_char CHR ''/'' = CHR ''/''"
  by (simp add: toUpperCase_char_def)

lemma toUpperCase_version:
  assumes "version_grammar v" shows "toUpperCase v = v"
proof -
  have "\<forall>c\<in>set v. toUpperCase_char c = c"
    using assms grammar_from_chars [of False v] toUpperCase_char_digit_dot
    by (auto simp add: version_grammar_def)
  then show ?thesis unfolding toUpperCase_def by (simp add: map_idI)
qed

lemma slash_in_toUpperCase: "CHR ''/'' \<in> set s \<Longrightarrow> CHR ''/'' \<in> set (toUpperCase s)"
  unfolding toUpperCase_def using toUpperCase_char_slash by force

lemma slash_in_remove_spaces: "CHR ''/'' \<in> set s \<Longrightarrow> CHR ''/'' \<in> set (remove_spaces s)"
  by (simp add: remove_spaces_def is_space_def)

lemma str_includes_set: "str_includes pat s \<Longrightarrow> set pat \<subseteq> set s"
proof (induction s)
  case Nil
  then show ?case by simp
next
  case (Cons a s)
  from Cons.prems have "prefix pat (a # s) \<or> str_includes pat s" by simp
  then show ?case
  proof
    assume "prefix pat (a # s)"
    then show ?thesis by (rule set_mono_prefix)
  next
    assume "str_includes pat s"
    then have "set pat \<subseteq> set s" by (rule Cons.IH)
    then show ?thesis by auto
  qed
qed

lemma find_exact:
  "find (\<lambda>x. x = t) xs = (if t \<in> set xs then Some t else None)"
  by (induction xs) auto

lemma find_catalog:
  assumes "\<forall>x\<in>set versions. version_grammar x"
  shows "find (\<lambda>v. toUpperCase v = t) versions = (if t \<in> set versions then Some t else None)"
proof -
  have "find (\<lambda>v. toUpperCase v = t) versions = find (\<lambda>x. x = t) versions"
    using assms by (intro find_cong) (auto simp add: toUpperCase_version)
  then show ?thesis by (simp add: find_exact)
qed

section \<open>The cases of resolve_version\<close>

lemma toUpperCase_Nil: "toUpperCase [] = []"
  by (simp add: toUpperCase_def)

lemma toUpperCase_LATEST: "toUpperCase ''LATEST'' = ''LATEST''"
  by code_simp

lemma resolve_version_empty:
  "resolve_version [] q = Inl (Error_json 404 ''No available releases for this app'')"
  by (simp add: resolve_version_def)

lemma resolve_version_string:
  assumes "versions \<noteq> []" "version \<noteq> []"
  shows "resolve_version versions (Q_string version) =
     (if toUpperCase version = ''LATEST'' then Inr (hd versions)
      else case find (\<lambda>v. toUpperCase v = toUpperCase (remove_spaces version)) versions of
             None \<Rightarrow> Inl (Error_json 404 (not_found_message version))
           | Some foundVersion \<Rightarrow>
               if foundVersion = [] then Inl (Error_json 404 (not_found_message version))
               else Inr foundVersion)"
  using assms by (simp add: resolve_version_def Let_def)

lemma resolve_version_default:
  assumes "versions \<noteq> []"
  shows "resolve_version versions Q_absent = Inr (hd versions)"
    and "resolve_version versions (Q_string []) = Inr (hd versions)"
  using assms by (simp_all add: resolve_version_def toUpperCase_LATEST)

lemma resolve_version_Q_other:
  assumes "versions \<noteq> []"
  shows "resolve_version versions Q_other = Inl (Error_json 500 ''Internal server error'')"
  using assms by (simp add: resolve_version_def)

lemma resolve_version_other:
  assumes "versions \<noteq> []" "version \<noteq> []" "toUpperCase version \<noteq> ''LATEST''"
    and "\<forall>x\<in>set versions. version_grammar x"
  shows "resolve_version versions (Q_string version) =
     (if toUpperCase (remove_spaces version) \<in> set versions
      then Inr (toUpperCase (remove_spaces version))
      else Inl (Error_json 404 (not_found_message version)))"
proof (cases "toUpperCase (remove_spaces version) \<in> set versions")
  case True
  then have "version_grammar (toUpperCase (remove_spaces version))" using assms(4) by blast
  then have "toUpperCase (remove_spaces version) \<noteq> []" by (rule version_grammar_facts(1))
  with True assms(3) show ?thesis
    by (simp add: resolve_version_string [OF assms(1,2)] find_catalog [OF assms(4)])
next
  case False
  with assms(3) show ?thesis
    by (simp add: resolve_version_string [OF assms(1,2)] find_catalog [OF assms(4)])
qed

lemma resolve_version_Inr:
  assumes "resolve_version versions q = Inr v"
  shows "v \<in> set versions"
proof (cases "versions = []")
  case True
  with assms show ?thesis by (simp add: resolve_version_empty)
next
  case ne: False
  then have h: "hd versions \<in> set versions" by simp
  show ?thesis
  proof (cases q)
    case Q_absent
    with assms ne h show ?thesis by (simp add: resolve_version_default)
  next
    case Q_other
    with assms ne show ?thesis by (simp add: resolve_version_Q_other)
  next
    case (Q_string version)
    show ?thesis
    proof (cases "version = []")
      case True
      with assms ne h Q_string show ?thesis by (simp add: resolve_version_default)
    next
      case False
      show ?thesis
      proof (cases "toUpperCase version = ''LATEST''")
        case True
        with assms h Q_string show ?thesis
          by (simp add: resolve_version_string [OF ne False])
      next
        case notl: False
        with assms Q_string
        have "find (\<lambda>x. toUpperCase x = toUpperCase (remove_spaces version)) versions = Some v"
          by (simp add: resolve_version_string [OF ne False] split: option.splits if_splits)
        then show ?thesis by (auto simp add: find_Some_iff)
      qed
    qed
  qed
qed

lemma resolve_version_Inl:
  assumes "resolve_version versions q = Inl (Error_json st msg)"
  shows "st = 404 \<or> st = 500"
proof (cases "versions = []")
  case True
  with assms show ?thesis by (simp add: resolve_version_empty)
next
  case ne: False
  show ?thesis
  proof (cases q)
    case Q_absent
    with assms ne show ?thesis by (simp add: resolve_version_default)
  next
    case Q_other
    with assms ne show ?thesis by (simp add: resolve_version_Q_other)
  next
    case (Q_string version)
    show ?thesis
    proof (cases "version = []")
      case True
      with assms ne Q_string show ?thesis by (simp add: resolve_version_default)
    next
      case False
      with assms Q_string show ?thesis
        by (simp add: resolve_version_string [OF ne False] split: if_splits option.splits)
    qed
  qed
qed

section \<open>Splitting and joining paths\<close>

lemma split_on_not_Nil: "split_on d s \<noteq> []"
  by (induction s) (auto split: list.splits)

lemma split_on_no_separator: "d \<notin> set s \<Longrightarrow> split_on d s = [s]"
  by (induction s) auto

lemma split_on_append: "split_on d (a @ d # b) = split_on d a @ split_on d b"
proof (induction a)
  case Nil
  then show ?case by simp
next
  case (Cons c a)
  obtain p ps where s: "split_on d a = p # ps"
    using split_on_not_Nil [of d a] by (cases "split_on d a") auto
  show ?case
  proof (cases "c = d")
    case True
    then show ?thesis using Cons.IH by simp
  next
    case False
    then show ?thesis using Cons.IH s by simp
  qed
qed

lemma split_on_segments: "s \<in> set (split_on d x) \<Longrightarrow> d \<notin> set s"
proof (induction x arbitrary: s)
  case Nil
  then show ?case by simp
next
  case (Cons c x)
  obtain p ps where sp: "split_on d x = p # ps"
    using split_on_not_Nil [of d x] by (cases "split_on d x") auto
  have p: "d \<notin> set p" and ps: "\<forall>t\<in>set ps. d \<notin> set t"
    using Cons.IH sp by auto
  show ?case
  proof (cases "c = d")
    case True
    with Cons.prems sp p ps show ?thesis by auto
  next
    case False
    with Cons.prems sp p ps show ?thesis by auto
  qed
qed

lemma join_with_snoc:
  "join_with sep (ss @ [v]) = (if ss = [] then v else join_with sep ss @ sep @ v)"
  by (induction sep ss rule: join_with.induct) auto

lemma clean_segments_simps:
  "clean_segments []"
  "clean_segments (s # ss) =
     (s \<noteq> [] \<and> s \<noteq> ''.'' \<and> s \<noteq> ''..'' \<and> CHR ''/'' \<notin> set s \<and> clean_segments ss)"
  "clean_segments (ss @ ts) = (clean_segments ss \<and> clean_segments ts)"
  by (auto simp add: clean_segments_def)

lemma join_with_empty:
  "clean_segments ss \<Longrightarrow> (join_with ''/'' ss = []) = (ss = [])"
  by (induction "''/''" ss rule: join_with.induct) (auto simp add: clean_segments_simps)

lemma split_join:
  "clean_segments ss \<Longrightarrow> ss \<noteq> [] \<Longrightarrow> split_on CHR ''/'' (join_with ''/'' ss) = ss"
proof (induction "''/''" ss rule: join_with.induct)
  case 1
  then show ?case by simp
next
  case (2 p)
  then show ?case by (simp add: clean_segments_simps split_on_no_separator)
next
  case (3 p q ps)
  have "split_on CHR ''/'' (p @ CHR ''/'' # join_with ''/'' (q # ps)) =
        split_on CHR ''/'' p @ split_on CHR ''/'' (join_with ''/'' (q # ps))"
    by (rule split_on_append)
  with 3 show ?case by (simp add: clean_segments_simps split_on_no_separator)
qed

subsection \<open>Normalised segments\<close>

lemma normalizeString_clean:
  "clean_segments ss \<Longrightarrow> normalizeString allow res ss = res @ ss"
  by (induction ss arbitrary: res) (auto simp add: clean_segments_simps)

lemma normalizeString_append:
  "normalizeString allow res (xs @ ys) = normalizeString allow (normalizeString allow res xs) ys"
  by (induction xs arbitrary: res) auto

lemma clean_butlast: "clean_segments res \<Longrightarrow> clean_segments (butlast res)"
  by (auto simp add: clean_segments_def dest: in_set_butlastD)

lemma normalizeString_output_clean:
  assumes "clean_segments res" "\<forall>s\<in>set xs. CHR ''/'' \<notin> set s"
  shows "clean_segments (normalizeString False res xs)"
  using assms
proof (induction xs arbitrary: res)
  case Nil
  then show ?case by simp
next
  case (Cons s xs)
  have rest: "\<forall>t\<in>set xs. CHR ''/'' \<notin> set t" using Cons.prems(2) by simp
  show ?case
  proof (cases "s = [] \<or> s = ''.''")
    case True
    then show ?thesis using Cons.IH [OF Cons.prems(1) rest] by auto
  next
    case False
    show ?thesis
    proof (cases "s = ''..''")
      case True
      then show ?thesis
        using Cons.IH [OF Cons.prems(1) rest] Cons.IH [OF clean_butlast [OF Cons.prems(1)] rest]
        by simp
    next
      case notdd: False
      have "clean_segments (res @ [s])"
        using Cons.prems False notdd by (simp add: clean_segments_simps)
      from Cons.IH [OF this rest] show ?thesis using False notdd by simp
    qed
  qed
qed

subsection \<open>The resolved path of a catalog entry\<close>

lemma resolved_base_segments:
  assumes "path_resolve wd B = B"
  obtains segs where "B = CHR ''/'' # join_with ''/'' segs" "clean_segments segs"
    "normalizeString False [] (split_on CHR ''/'' B) = segs"
proof -
  have "path_resolve wd B \<noteq> []" "hd (path_resolve wd B) = CHR ''/''"
    by (simp_all add: path_resolve_def)
  then have abs: "isAbsolute B"
    unfolding assms by (simp add: isAbsolute_def)
  define segs where "segs = normalizeString False [] (split_on CHR ''/'' B)"
  have e: "path_resolve wd B = CHR ''/'' # join_with ''/'' segs"
    using abs by (simp add: path_resolve_def segs_def)
  have b: "B = CHR ''/'' # join_with ''/'' segs"
    by (rule trans [OF assms [symmetric] e])
  have c: "clean_segments segs"
    unfolding segs_def
  proof (rule normalizeString_output_clean)
    show "clean_segments []" by (simp add: clean_segments_simps)
    show "\<forall>s\<in>set (split_on CHR ''/'' B). CHR ''/'' \<notin> set s"
      using split_on_segments by blast
  qed
  show ?thesis by (rule that [OF b c segs_def [symmetric]])
qed

lemma resolved_child:
  assumes B: "path_resolve wd B = B" and v: "version_grammar v"
  shows "path_resolve wd (path_join B v) = child_path B v"
    and "prefix B (child_path B v)"
proof -
  from B obtain segs where b: "B = CHR ''/'' # join_with ''/'' segs" and c: "clean_segments segs"
    and n: "normalizeString False [] (split_on CHR ''/'' B) = segs"
    by (rule resolved_base_segments)
  note vf = version_grammar_facts [OF v]
  have cv: "clean_segments (segs @ [v])"
    using c vf by (simp add: clean_segments_simps)
  have bne: "B \<noteq> []" and babs: "isAbsolute B" using b by (simp_all add: isAbsolute_def)
  let ?p = "B @ ''/'' @ v"
  have pabs: "isAbsolute ?p" using b by (simp add: isAbsolute_def)
  have plast: "last ?p \<noteq> CHR ''/''" using vf by simp
  have "split_on CHR ''/'' ?p = split_on CHR ''/'' B @ split_on CHR ''/'' v"
    using split_on_append [of "CHR ''/''" B v] by simp
  then have sp: "split_on CHR ''/'' ?p = split_on CHR ''/'' B @ [v]"
    using vf by (simp add: split_on_no_separator)
  have ns: "normalizeString False [] (split_on CHR ''/'' ?p) = segs @ [v]"
    unfolding sp normalizeString_append n
    using vf by simp
  have jne: "join_with ''/'' (segs @ [v]) \<noteq> []"
    using join_with_empty [OF cv] by simp
  have pj: "path_join B v = CHR ''/'' # join_with ''/'' (segs @ [v])"
    using bne vf(1) pabs plast ns jne
    by (simp add: path_join_def path_normalize_def Let_def)
  have "split_on CHR ''/'' (CHR ''/'' # join_with ''/'' (segs @ [v])) = [] # (segs @ [v])"
    using split_join [OF cv] by simp
  then have "normalizeString False [] (split_on CHR ''/'' (CHR ''/'' # join_with ''/'' (segs @ [v])))
             = segs @ [v]"
    using normalizeString_clean [OF cv, of False "[]"] by simp
  then have pr: "path_resolve wd (path_join B v) = CHR ''/'' # join_with ''/'' (segs @ [v])"
    unfolding pj by (simp add: path_resolve_def isAbsolute_def)
  have ch: "child_path B v = CHR ''/'' # join_with ''/'' (segs @ [v])"
  proof (cases "segs = []")
    case True
    then show ?thesis using b by (simp add: child_path_def)
  next
    case False
    then have "join_with ''/'' segs \<noteq> []" using join_with_empty [OF c] by simp
    then have "B \<noteq> ''/''" using b by simp
    then show ?thesis using b False by (simp add: child_path_def join_with_snoc)
  qed
  show "path_resolve wd (path_join B v) = child_path B v" using pr ch by simp
  show "prefix B (child_path B v)" by (simp add: child_path_def)
qed

lemma updates_endpoint_unfold:
  "updates_endpoint h q =
     (case resolve_version (array_sort compare_versions (filter version_grammar (getFolders h))) q of
        Inl reply \<Rightarrow> Inl reply
      | Inr version \<Rightarrow> send_version h version)"
  by (simp add: updates_endpoint_def get_versions_mset)

lemma send_version_contained:
  assumes "path_resolve (working_dir h) (BASE_DIR h) = BASE_DIR h" "version_grammar v"
  shows "send_version h v =
     (if \<not> (case stat h (child_path (BASE_DIR h) v) of Some n \<Rightarrow> isDirectory n | None \<Rightarrow> False)
      then Inl (Error_json 404 (''Version '' @ v @ '' not found''))
      else Inr (Download (''attachment; filename='' @ [CHR 0x22] @ v @ ''.tar.gz'' @ [CHR 0x22])
                         (createTarStream h (child_path (BASE_DIR h) v))))"
  using resolved_child [OF assms]
  by (simp add: send_version_def Let_def)

section \<open>Components below the precision of a double\<close>

lemma bit_length_bound: "n < 2 ^ k \<Longrightarrow> bit_length n \<le> k"
proof (induction k arbitrary: n)
  case 0
  then show ?case by (simp add: bit_length.simps)
next
  case (Suc k)
  show ?case
  proof (cases "n = 0")
    case True
    then show ?thesis by (simp add: bit_length.simps)
  next
    case False
    from Suc.prems have "n div 2 < 2 ^ k" by auto
    then have "bit_length (n div 2) \<le> k" by (rule Suc.IH)
    with False show ?thesis by (subst bit_length.simps) simp
  qed
qed

lemma to_double_small: "n < 2 ^ 53 \<Longrightarrow> to_double n = n"
  using bit_length_bound [of n 53] by (simp add: to_double_def)

lemma version_parts_small: "small_parts v \<Longrightarrow> version_parts v = exact_parts v"
  by (simp add: small_parts_def version_parts_def exact_parts_def Number_def to_double_small)

lemma descending_small:
  assumes "descending vs" "\<forall>v\<in>set vs. small_parts v"
  shows "descending_exact vs"
proof -
  have "sorted_wrt (\<lambda>x y. \<not> tuple_greater (version_parts y) (version_parts x)) vs"
    using assms(1) by (simp add: descending_def)
  then have "sorted_wrt (\<lambda>x y. \<not> tuple_greater (exact_parts y) (exact_parts x)) vs"
  proof (rule sorted_wrt_mono_rel [rotated])
    fix x y
    assume "x \<in> set vs" "y \<in> set vs"
      and "\<not> tuple_greater (version_parts y) (version_parts x)"
    then show "\<not> tuple_greater (exact_parts y) (exact_parts x)"
      using assms(2) by (simp add: version_parts_small)
  qed
  then show ?thesis by (simp add: descending_exact_def)
qed

lemma strictly_descending_small:
  assumes "strictly_descending vs" "\<forall>v\<in>set vs. small_parts v"
  shows "strictly_descending_exact vs"
proof -
  have "sorted_wrt (\<lambda>x y. tuple_greater (version_parts x) (version_parts y)) vs"
    using assms(1) by (simp add: strictly_descending_def)
  then have "sorted_wrt (\<lambda>x y. tuple_greater (exact_parts x) (exact_parts y)) vs"
  proof (rule sorted_wrt_mono_rel [rotated])
    fix x y
    assume "x \<in> set vs" "y \<in> set vs"
      and "tuple_greater (version_parts x) (version_parts y)"
    then show "tuple_greater (exact_parts x) (exact_parts y)"
      using assms(2) by (simp add: version_parts_small)
  qed
  then show ?thesis by (simp add: strictly_descending_exact_def)
qed

lemma big_numbers:
  "Number ''9007199254740992'' = 9007199254740992"
  "Number ''9007199254740993'' = 9007199254740992"
  by (simp_all add: Number_def decimal_def digit_value_def to_double_def bit_length.simps Let_def)

lemma big_exact:
  "decimal ''9007199254740992'' = 9007199254740992"
  "decimal ''9007199254740993'' = 9007199254740993"
  by (simp_all add: decimal_def digit_value_def)

section \<open>Claims\<close>

text \<open>
  C1 (as amended). For every listing of the package root, \<open>get_versions\<close> succeeds with a
  catalog that holds exactly the directory names matching the grammar \<open>^\d+(\.\d+)*$\<close>
  (each as often as it is listed), in descending order of the tuples of numbers that the
  comparator reads, missing components read as 0: no entry is followed by a greater one.
  When every component is below \<open>2^53\<close> these are the exact numeric tuples, and the order
  is strictly descending when moreover the listed names are distinct and no two catalog
  entries denote the same tuple. The catalog is a function of the listing, so the same
  listing always gives the same sequence.
\<close>

theorem get_versions_catalog:
  "\<exists>versions. get_versions h = Status_true versions
      \<and> mset versions = mset (filter version_grammar (getFolders h))
      \<and> descending versions
      \<and> ((\<forall>v\<in>set versions. small_parts v) \<longrightarrow> descending_exact versions)
      \<and> ((\<forall>v\<in>set versions. small_parts v) \<and> distinct (getFolders h)
           \<and> (\<forall>x\<in>set versions. \<forall>y\<in>set versions.
                 x \<noteq> y \<longrightarrow> \<not> tuple_equal (exact_parts x) (exact_parts y))
         \<longrightarrow> strictly_descending_exact versions)"
proof -
  define versions where
    "versions = array_sort compare_versions (filter version_grammar (getFolders h))"
  have g: "get_versions h = Status_true versions"
    by (simp add: versions_def get_versions_mset)
  have m: "mset versions = mset (filter version_grammar (getFolders h))"
    by (simp add: versions_def mset_array_sort)
  have d: "descending versions"
    by (simp add: versions_def descending_array_sort)
  have e: "(\<forall>v\<in>set versions. small_parts v) \<longrightarrow> descending_exact versions"
    using d descending_small by blast
  have s: "(\<forall>v\<in>set versions. small_parts v) \<and> distinct (getFolders h)
           \<and> (\<forall>x\<in>set versions. \<forall>y\<in>set versions.
                 x \<noteq> y \<longrightarrow> \<not> tuple_equal (exact_parts x) (exact_parts y))
         \<longrightarrow> strictly_descending_exact versions"
  proof
    assume a: "(\<forall>v\<in>set versions. small_parts v) \<and> distinct (getFolders h)
           \<and> (\<forall>x\<in>set versions. \<forall>y\<in>set versions.
                 x \<noteq> y \<longrightarrow> \<not> tuple_equal (exact_parts x) (exact_parts y))"
    then have sm: "\<forall>v\<in>set versions. small_parts v" by blast
    have "distinct (filter version_grammar (getFolders h))" using a by simp
    then have dv: "distinct versions" using m by (metis mset_eq_imp_distinct_iff)
    have nt: "\<forall>x\<in>set versions. \<forall>y\<in>set versions.
                 x \<noteq> y \<longrightarrow> \<not> tuple_equal (version_parts x) (version_parts y)"
      using a sm by (simp add: version_parts_small)
    have "strictly_descending versions"
      using d dv nt by (rule descending_distinct_strict)
    then show "strictly_descending_exact versions"
      using sm by (rule strictly_descending_small)
  qed
  from g m d e s show ?thesis
    by - (rule exI [of _ versions], intro conjI, assumption+)
qed

text \<open>
  C1 (as amended) on the sample host: of the four directories two match the grammar, and
  2.1.0 comes before 1.0.0.
\<close>

theorem get_versions_catalog_witness:
  "get_versions host_demo = Status_true [''2.1.0'', ''1.0.0'']
   \<and> getFolders host_demo = [''1.0.0'', ''2.1.0'', ''v1.0'', ''1.0.0-beta.1'']
   \<and> descending_exact [''2.1.0'', ''1.0.0'']
   \<and> strictly_descending_exact [''2.1.0'', ''1.0.0'']"
proof -
  have e: "get_versions host_demo = Status_true [''2.1.0'', ''1.0.0'']"
    by code_simp
  have f: "getFolders host_demo = [''1.0.0'', ''2.1.0'', ''v1.0'', ''1.0.0-beta.1'']"
    by code_simp
  have sm: "\<forall>v\<in>set [''2.1.0'', ''1.0.0'']. small_parts v"
    by (simp add: small_parts_def decimal_def digit_value_def)
  have t: "\<forall>x\<in>set [''2.1.0'', ''1.0.0'']. \<forall>y\<in>set [''2.1.0'', ''1.0.0''].
             x \<noteq> y \<longrightarrow> \<not> tuple_equal (exact_parts x) (exact_parts y)"
    by code_simp
  have dist: "distinct (getFolders host_demo)"
    unfolding f by simp
  from get_versions_catalog [of host_demo] e
  have "((\<forall>v\<in>set [''2.1.0'', ''1.0.0'']. small_parts v) \<longrightarrow> descending_exact [''2.1.0'', ''1.0.0''])
      \<and> ((\<forall>v\<in>set [''2.1.0'', ''1.0.0'']. small_parts v) \<and> distinct (getFolders host_demo)
           \<and> (\<forall>x\<in>set [''2.1.0'', ''1.0.0'']. \<forall>y\<in>set [''2.1.0'', ''1.0.0''].
                 x \<noteq> y \<longrightarrow> \<not> tuple_equal (exact_parts x) (exact_parts y))
         \<longrightarrow> strictly_descending_exact [''2.1.0'', ''1.0.0''])"
    by auto
  with sm dist t have "descending_exact [''2.1.0'', ''1.0.0'']"
      "strictly_descending_exact [''2.1.0'', ''1.0.0'']"
    by blast+
  with e f show ?thesis by - (intro conjI, assumption+)
qed

text \<open>
  C1 as stated fails in two ways. With the directories \<open>1\<close> and \<open>1.0\<close> the catalog is
  \<open>1, 1.0\<close>, two entries of the same tuple, which is not strictly descending. With the
  directories \<open>9007199254740992\<close> and \<open>9007199254740993\<close> both names are read as the same
  double, the sort leaves them in the order of the listing, and the greater one comes last.
\<close>

theorem get_versions_order_counterexample:
  "get_versions host_ties = Status_true [''1'', ''1.0'']
   \<and> \<not> strictly_descending_exact [''1'', ''1.0'']
   \<and> get_versions host_big = Status_true [''9007199254740992'', ''9007199254740993'']
   \<and> \<not> descending_exact [''9007199254740992'', ''9007199254740993'']"
proof -
  have a: "get_versions host_ties = Status_true [''1'', ''1.0'']
           \<and> \<not> strictly_descending_exact [''1'', ''1.0'']"
    by code_simp
  have f: "getFolders host_big = [''9007199254740992'', ''9007199254740993'']"
    by code_simp
  have gr: "filter version_grammar [''9007199254740992'', ''9007199254740993'']
              = [''9007199254740992'', ''9007199254740993'']"
    by code_simp
  have sp: "split_on CHR ''.'' ''9007199254740992'' = [''9007199254740992'']"
       "split_on CHR ''.'' ''9007199254740993'' = [''9007199254740993'']"
    by code_simp+
  have c: "compare_versions ''9007199254740992'' ''9007199254740993'' = 0"
    by (simp add: compare_versions_def version_parts_def sp big_numbers compare_loop.simps part_or_0_def)
  have so: "array_sort compare_versions [''9007199254740992'', ''9007199254740993'']
              = [''9007199254740992'', ''9007199254740993'']"
    by (simp add: array_sort_def c)
  have b: "get_versions host_big = Status_true [''9007199254740992'', ''9007199254740993'']"
    by (simp only: get_versions_mset f gr so)
  have "tuple_greater (exact_parts ''9007199254740993'') (exact_parts ''9007199254740992'')"
    by (simp add: exact_parts_def sp big_exact tuple_greater_def pad_zero_def)
  then have n: "\<not> descending_exact [''9007199254740992'', ''9007199254740993'']"
    by (simp add: descending_exact_def)
  from a b n show ?thesis by simp
qed

text \<open>
  C2 (as amended). A request to \<open>GET /updates\<close> whose version string contains \<open>../\<close> never
  reaches the containment check or the file system: it matches no catalog entry, so the
  host answers 404, not 403, with the no-releases message when the catalog is empty and
  otherwise with the not-found message, which quotes the requested string and nothing of
  the resolved path.
\<close>

theorem traversal_request_not_found:
  "str_includes ''../'' version \<longrightarrow>
     (\<exists>versions. get_versions h = Status_true versions
        \<and> updates_endpoint h (Q_string version) =
            Inl (Error_json 404
                  (if versions = [] then ''No available releases for this app''
                   else not_found_message version)))"
proof
  assume i: "str_includes ''../'' version"
  have sl: "CHR ''/'' \<in> set version"
    using str_includes_set [OF i] by simp
  then have ne: "version \<noteq> []" by auto
  have "CHR ''/'' \<in> set (toUpperCase version)" using sl by (rule slash_in_toUpperCase)
  moreover have "CHR ''/'' \<notin> set ''LATEST''" by simp
  ultimately have nl: "toUpperCase version \<noteq> ''LATEST''" by metis
  define versions where
    "versions = array_sort compare_versions (filter version_grammar (getFolders h))"
  have g: "get_versions h = Status_true versions"
    by (simp add: versions_def get_versions_mset)
  have gr: "\<forall>x\<in>set versions. version_grammar x"
    using catalog_grammar [OF g] by blast
  have cs: "CHR ''/'' \<in> set (toUpperCase (remove_spaces version))"
    using sl by (intro slash_in_toUpperCase slash_in_remove_spaces)
  have nm: "toUpperCase (remove_spaces version) \<notin> set versions"
  proof
    assume "toUpperCase (remove_spaces version) \<in> set versions"
    then have "version_grammar (toUpperCase (remove_spaces version))" using gr by blast
    from version_grammar_facts(2) [OF this] cs show False by simp
  qed
  have u: "updates_endpoint h (Q_string version) =
             (case resolve_version versions (Q_string version) of Inl reply \<Rightarrow> Inl reply
              | Inr v \<Rightarrow> send_version h v)"
    by (simp add: updates_endpoint_def g)
  have "updates_endpoint h (Q_string version) =
          Inl (Error_json 404
                (if versions = [] then ''No available releases for this app''
                 else not_found_message version))"
  proof (cases "versions = []")
    case True
    then show ?thesis by (simp add: u resolve_version_empty)
  next
    case False
    then show ?thesis
      using nm by (simp add: u resolve_version_other [OF False ne nl gr])
  qed
  with g show "\<exists>versions. get_versions h = Status_true versions
        \<and> updates_endpoint h (Q_string version) =
            Inl (Error_json 404
                  (if versions = [] then ''No available releases for this app''
                   else not_found_message version))"
    by - (rule exI [of _ versions], intro conjI, assumption+)
qed

text \<open>
  C2 (as amended) on the request \<open>2.1.0/../1.0.0\<close>.
\<close>

theorem traversal_request_not_found_witness:
  "str_includes ''../'' ''2.1.0/../1.0.0''
   \<and> get_versions host_demo = Status_true [''2.1.0'', ''1.0.0'']
   \<and> updates_endpoint host_demo (Q_string ''2.1.0/../1.0.0'') =
        Inl (Error_json 404 (not_found_message ''2.1.0/../1.0.0''))"
proof -
  have i: "str_includes ''../'' ''2.1.0/../1.0.0''" by code_simp
  have g: "get_versions host_demo = Status_true [''2.1.0'', ''1.0.0'']" by code_simp
  from traversal_request_not_found [of "''2.1.0/../1.0.0''" host_demo] i g
  have "updates_endpoint host_demo (Q_string ''2.1.0/../1.0.0'') =
          Inl (Error_json 404 (not_found_message ''2.1.0/../1.0.0''))"
    by auto
  with i g show ?thesis by - (intro conjI, assumption+)
qed

text \<open>
  C2 as stated fails: the request \<open>../../etc\<close> is answered with 404 and the not-found
  message, not with the 403 of the containment check.
\<close>

theorem traversal_request_counterexample:
  "str_includes ''../'' ''../../etc''
   \<and> updates_endpoint host_demo (Q_string ''../../etc'') =
        Inl (Error_json 404
          ''Version ../../etc not found, try a different version or 'version=LATEST' to get the latest version'')
   \<and> updates_endpoint host_demo (Q_string ''../../etc'') \<noteq> Inl (Error_json 403 ''Invalid version path'')"
  by code_simp





text \<open>
  C5 (as amended). \<open>get_versions\<close> never fails: a package root that cannot be read is
  logged by \<open>getFolders\<close> and treated as an empty listing, and malformed entries are
  filtered. \<open>GET /versions\<close> therefore always answers with the fields \<open>versions\<close> and
  \<open>latest\<close>, where \<open>latest\<close> is the first entry, or \<open>null\<close> when the list is empty; for
  an unreadable root the list is empty.
\<close>

theorem get_versions_never_fails:
  "\<exists>versions. get_versions h = Status_true versions
      \<and> versions_endpoint h = Inr (versions, case versions of [] \<Rightarrow> None | v # rest \<Rightarrow> Some v)
      \<and> (root h = None \<longrightarrow> versions = [])"
proof -
  define versions where
    "versions = array_sort compare_versions (filter version_grammar (getFolders h))"
  have g: "get_versions h = Status_true versions"
    by (simp add: versions_def get_versions_mset)
  have e: "versions_endpoint h = Inr (versions, case versions of [] \<Rightarrow> None | v # rest \<Rightarrow> Some v)"
    by (cases versions) (simp_all add: versions_endpoint_def g)
  have u: "root h = None \<longrightarrow> versions = []"
    by (simp add: versions_def getFolders_def array_sort_def)
  from g e u show ?thesis
    by - (rule exI [of _ versions], intro conjI, assumption+)
qed

text \<open>
  C5 (as amended) on a host whose package root cannot be read.
\<close>

theorem get_versions_never_fails_witness:
  "root host_unreadable = None
   \<and> get_versions host_unreadable = Status_true []
   \<and> versions_endpoint host_unreadable = Inr ([], None)"
proof -
  have r: "root host_unreadable = None" by (simp add: host_unreadable_def)
  with get_versions_never_fails [of host_unreadable] show ?thesis by auto
qed

text \<open>
  C5 as stated fails: with an unreadable package root \<open>get_versions\<close> reports success with
  an empty catalog, and \<open>GET /versions\<close> answers 200 with an empty list instead of 500.
\<close>

theorem unreadable_root_counterexample:
  "get_versions host_unreadable = Status_true []
   \<and> versions_endpoint host_unreadable \<noteq> Inl (Error_json 500 ''ENOENT'')
   \<and> versions_endpoint host_unreadable = Inr ([], None)"
  by code_simp



text \<open>
  C7 fails on the code. Asked for \<open>latest\<close> in lower case, the host resolves the request
  to 2.1.0 and sends that package, the update succeeds, and the client writes the request
  string \<open>latest\<close> into the version file: only the exact string \<open>LATEST\<close> makes the
  client take the version from the file name. A request for 2.1.0 with a space in front
  is recorded with the space.
\<close>

theorem update_latest_lowercase:
  "updates_endpoint host_demo (Q_string ''latest'') =
     Inr (Download (''attachment; filename='' @ [CHR 0x22] @ ''2.1.0.tar.gz'' @ [CHR 0x22])
                   (Archive [Tar_dir [''2.1.0''], Tar_file [''2.1.0'', ''main.js''] ''new'']))
   \<and> fst (update (serve host_demo) ''latest'' client_demo) = Done
   \<and> version_txt (snd (update (serve host_demo) ''latest'' client_demo)) = Some ''latest''
   \<and> version_txt (snd (update (serve host_demo) ''LATEST'' client_demo)) = Some ''2.1.0''
   \<and> fst (update (serve host_demo) '' 2.1.0'' client_demo) = Done
   \<and> version_txt (snd (update (serve host_demo) '' 2.1.0'' client_demo)) = Some '' 2.1.0''"
  by code_simp






text \<open>
  C10. When \<open>BASE_DIR\<close> is an absolute normalised path (as \<open>path.join\<close> of the script
  directory always is), every version that reaches the streaming stage is a catalog entry
  and matches the grammar, its resolved path is the child of \<open>BASE_DIR\<close> of that name
  and so starts with \<open>BASE_DIR\<close>, and no request whatsoever is answered with 403.
\<close>

theorem containment_check_never_rejects:
  "path_resolve (working_dir h) (BASE_DIR h) = BASE_DIR h \<longrightarrow>
     (get_versions h = Status_true versions \<and> resolve_version versions q = Inr version \<longrightarrow>
        version \<in> set versions \<and> version_grammar version
        \<and> path_resolve (working_dir h) (path_join (BASE_DIR h) version) = child_path (BASE_DIR h) version
        \<and> prefix (BASE_DIR h) (path_resolve (working_dir h) (path_join (BASE_DIR h) version)))
     \<and> updates_endpoint h q \<noteq> Inl (Error_json 403 msg)"
proof
  assume B: "path_resolve (working_dir h) (BASE_DIR h) = BASE_DIR h"
  have first: "version \<in> set versions \<and> version_grammar version
        \<and> path_resolve (working_dir h) (path_join (BASE_DIR h) version) = child_path (BASE_DIR h) version
        \<and> prefix (BASE_DIR h) (path_resolve (working_dir h) (path_join (BASE_DIR h) version))"
    if g: "get_versions h = Status_true versions" and r: "resolve_version versions q = Inr version"
  proof -
    have m: "version \<in> set versions" using r by (rule resolve_version_Inr)
    have v: "version_grammar version" using g m by (rule catalog_grammar)
    from resolved_child [OF B v] m v show ?thesis by simp
  qed
  have second: "updates_endpoint h q \<noteq> Inl (Error_json 403 msg)"
  proof
    assume a: "updates_endpoint h q = Inl (Error_json 403 msg)"
    define versions' where
      "versions' = array_sort compare_versions (filter version_grammar (getFolders h))"
    have g: "get_versions h = Status_true versions'"
      by (simp add: versions'_def get_versions_mset)
    show False
    proof (cases "resolve_version versions' q")
      case (Inl reply)
      with a have "resolve_version versions' q = Inl (Error_json 403 msg)"
        by (simp add: updates_endpoint_unfold versions'_def)
      from resolve_version_Inl [OF this] show False by simp
    next
      case (Inr v)
      have m: "v \<in> set versions'" using Inr by (rule resolve_version_Inr)
      have v: "version_grammar v" using g m by (rule catalog_grammar)
      from a Inr have "send_version h v = Inl (Error_json 403 msg)"
        by (simp add: updates_endpoint_unfold versions'_def)
      then show False
        by (simp add: send_version_contained [OF B v] split: if_splits)
    qed
  qed
  from first second
  show "(get_versions h = Status_true versions \<and> resolve_version versions q = Inr version \<longrightarrow>
        version \<in> set versions \<and> version_grammar version
        \<and> path_resolve (working_dir h) (path_join (BASE_DIR h) version) = child_path (BASE_DIR h) version
        \<and> prefix (BASE_DIR h) (path_resolve (working_dir h) (path_join (BASE_DIR h) version)))
     \<and> updates_endpoint h q \<noteq> Inl (Error_json 403 msg)"
    by blast
qed

text \<open>
  C10 on the sample host and the request \<open>latest\<close>.
\<close>

theorem containment_check_never_rejects_witness:
  "path_resolve (working_dir host_demo) (BASE_DIR host_demo) = BASE_DIR host_demo
   \<and> get_versions host_demo = Status_true [''2.1.0'', ''1.0.0'']
   \<and> resolve_version [''2.1.0'', ''1.0.0''] (Q_string ''latest'') = Inr ''2.1.0''
   \<and> path_resolve (working_dir host_demo) (path_join (BASE_DIR host_demo) ''2.1.0'') = ''/srv/app/2.1.0''
   \<and> prefix (BASE_DIR host_demo) (path_resolve (working_dir host_demo) (path_join (BASE_DIR host_demo) ''2.1.0''))
   \<and> updates_endpoint host_demo (Q_string ''latest'') \<noteq> Inl (Error_json 403 ''Invalid version path'')"
proof -
  have b: "path_resolve (working_dir host_demo) (BASE_DIR host_demo) = BASE_DIR host_demo"
    by code_simp
  have g: "get_versions host_demo = Status_true [''2.1.0'', ''1.0.0'']"
    by code_simp
  have r: "resolve_version [''2.1.0'', ''1.0.0''] (Q_string ''latest'') = Inr ''2.1.0''"
    by code_simp
  have c: "child_path (BASE_DIR host_demo) ''2.1.0'' = ''/srv/app/2.1.0''"
    by code_simp
  from containment_check_never_rejects
         [of host_demo "[''2.1.0'', ''1.0.0'']" "Q_string ''latest''" "''2.1.0''" "''Invalid version path''"]
       b g r
  have "path_resolve (working_dir host_demo) (path_join (BASE_DIR host_demo) ''2.1.0'')
          = child_path (BASE_DIR host_demo) ''2.1.0''
        \<and> prefix (BASE_DIR host_demo)
            (path_resolve (working_dir host_demo) (path_join (BASE_DIR host_demo) ''2.1.0''))
        \<and> updates_endpoint host_demo (Q_string ''latest'') \<noteq> Inl (Error_json 403 ''Invalid version path'')"
    by blast
  then have k1: "path_resolve (working_dir host_demo) (path_join (BASE_DIR host_demo) ''2.1.0'')
          = child_path (BASE_DIR host_demo) ''2.1.0''"
    and k2: "prefix (BASE_DIR host_demo)
            (path_resolve (working_dir host_demo) (path_join (BASE_DIR host_demo) ''2.1.0''))"
    and k3: "updates_endpoint host_demo (Q_string ''latest'') \<noteq> Inl (Error_json 403 ''Invalid version path'')"
    by blast+
  from b g r trans [OF k1 c] k2 k3 show ?thesis
    by - (intro conjI, assumption+)
qed

end
